theory Spec2Isabelle
  imports Main "HOL-Library.Sublist" "HOL-Library.Monad_Syntax"
begin

section \<open>The MIL graph: operations, blocks, variables\<close>

text \<open>
  The pass \<^verbatim>\<open>dead_code_elimination\<close> works on blocks of operations. A variable (a
  \<^verbatim>\<open>Var\<close> object) is identified by a number. The value stored under a parameter name of
  \<^verbatim>\<open>op.inputs\<close> is one variable or a tuple/list of variables. An operation owns a list
  of nested blocks; a block is a list of operations and a list of output variables.
\<close>

type_synonym var = nat

datatype input_ref = Single var | Multi "var list"

datatype operation =
  Operation (name: string) (op_type: string) (inputs: "(string \<times> input_ref) list")
            (outputs: "var list") (blocks: "block list")
and block =
  Block (operations: "operation list") (block_outputs: "var list")

text \<open>
  Lines 67 to 71: every value of \<^verbatim>\<open>op.inputs\<close> is added to \<^verbatim>\<open>used_vars\<close>, a tuple or a
  list element by element.
\<close>

fun flatten_input :: "input_ref \<Rightarrow> var list" where
  "flatten_input (Multi vs) = vs"
| "flatten_input (Single v) = [v]"

definition inputs_vars :: "(string \<times> input_ref) list \<Rightarrow> var set" where
  "inputs_vars ins = set (concat (map (\<lambda>(_, input_var). flatten_input input_var) ins))"

definition input_vars :: "operation \<Rightarrow> var set" where
  "input_vars op = inputs_vars (inputs op)"

text \<open>Line 78: the record handed to \<^verbatim>\<open>logger.info\<close> for a removed operation.\<close>

definition removing_msg :: "operation \<Rightarrow> string" where
  "removing_msg op =
     ''Removing op '' @ [CHR 0x22] @ name op @ [CHR 0x22] @ '' (type: '' @ op_type op @ '')''"

text \<open>
  Modelled from the spec: \<^verbatim>\<open>Operation.remove_from_block\<close> is not part of the source file.
  The specification says that a removed operation is detached from the operation
  sequence of its block, and that the other operations keep their relative order. An
  operation object is identified by its position in the sequence the sweep iterated
  over, so the sequence is held with these positions while operations are removed.
\<close>

definition remove_from_block :: "nat \<Rightarrow> (nat \<times> operation) list \<Rightarrow> (nat \<times> operation) list" where
  "remove_from_block i tagged = filter (\<lambda>(j, _). j \<noteq> i) tagged"

text \<open>
  Lines 77 to 79: the loop over \<^verbatim>\<open>ops_to_remove\<close>. Each entry is a dead operation with
  its position; the loop logs it and removes it.
\<close>

fun remove_loop ::
  "(nat \<times> operation) list \<Rightarrow> (nat \<times> operation) list \<Rightarrow> string list
     \<Rightarrow> (nat \<times> operation) list \<times> string list" where
  "remove_loop [] tagged lg = (tagged, lg)"
| "remove_loop ((i, op) # ops_to_remove) tagged lg =
     remove_loop ops_to_remove (remove_from_block i tagged) (lg @ [removing_msg op])"

section \<open>The pass\<close>

text \<open>
  \<^verbatim>\<open>_dead_code_elimination_block\<close> mutates the block and returns \<^verbatim>\<open>used_vars\<close>. The model
  returns the set, the block after the call and the records logged during the call.
  The decorator \<^verbatim>\<open>block_context_manager\<close> only makes the block the current one while
  the function runs; it has no part in the result.

  \<^verbatim>\<open>sweep\<close> is the loop of lines 60 to 75 over \<^verbatim>\<open>reversed(block.operations)\<close>: the
  operations behind the first one are visited before it, so the recursion first runs on
  the rest of the list. Its first argument is the position of the first operation of
  its list in \<^verbatim>\<open>block.operations\<close>. It returns \<^verbatim>\<open>used_vars\<close>, \<^verbatim>\<open>ops_to_remove\<close>, the
  operations with their nested blocks as the recursive calls have left them, and the
  records logged by those calls. \<^verbatim>\<open>dce_blocks\<close> is the loop of lines 73 to 75 over
  \<^verbatim>\<open>op.blocks\<close>.
\<close>

fun dce_block :: "block \<Rightarrow> var set \<times> block \<times> string list"
and sweep :: "nat \<Rightarrow> operation list \<Rightarrow> var set
     \<Rightarrow> var set \<times> (nat \<times> operation) list \<times> operation list \<times> string list"
and dce_blocks :: "block list \<Rightarrow> var set \<Rightarrow> var set \<times> block list \<times> string list"
where
  "dce_block (Block ops outs) =
     (case sweep 0 ops (set outs) of (used_vars, ops_to_remove, ops', lg) \<Rightarrow>
        (case remove_loop ops_to_remove (enumerate 0 ops') lg of (tagged, lg') \<Rightarrow>
           (used_vars, Block (map snd tagged) outs, lg')))"
| "sweep i [] used_vars = (used_vars, [], [], [])"
| "sweep i (Operation nm ty ins os bs # rest) used_vars =
     (case sweep (Suc i) rest used_vars of (used1, ops_to_remove, rest', lg) \<Rightarrow>
        if set os \<inter> used1 = {}
        then (used1, ops_to_remove @ [(i, Operation nm ty ins os bs)],
              Operation nm ty ins os bs # rest', lg)
        else (case dce_blocks bs (used1 \<union> inputs_vars ins) of (used2, bs', lg2) \<Rightarrow>
                (used2, ops_to_remove, Operation nm ty ins os bs' # rest', lg @ lg2)))"
| "dce_blocks [] used_vars = (used_vars, [], [])"
| "dce_blocks (b # bs) used_vars =
     (case dce_block b of (used_in_block, b', lg1) \<Rightarrow>
        (case dce_blocks bs (used_vars \<union> used_in_block) of (used2, bs', lg2) \<Rightarrow>
           (used2, b' # bs', lg1 @ lg2)))"



section \<open>The result of a call, and the sweep in closed form\<close>

text \<open>
  The three components of the result of \<^verbatim>\<open>_dead_code_elimination_block\<close>: the returned
  set, the block as the call leaves it, and the records logged.
\<close>

definition used_of :: "block \<Rightarrow> var set" where "used_of b = fst (dce_block b)"
definition swept :: "block \<Rightarrow> block" where "swept b = fst (snd (dce_block b))"
definition log_of :: "block \<Rightarrow> string list" where "log_of b = snd (snd (dce_block b))"

text \<open>
  What the loop does to a live operation: its nested blocks are the ones the recursive
  calls leave. The functions after it describe the four results of \<^verbatim>\<open>sweep\<close> and the
  operations that remain after the removal loop by recursion on the operation list
  alone; \<open>sweep_char\<close> and \<open>dce_block_char\<close> prove that they are what the pass computes.
\<close>

definition sweep_op :: "operation \<Rightarrow> operation" where
  "sweep_op op = Operation (name op) (op_type op) (inputs op) (outputs op) (map swept (blocks op))"

fun live_before :: "operation list \<Rightarrow> var set \<Rightarrow> var set" where
  "live_before [] u = u"
| "live_before (op # rest) u =
     (if set (outputs op) \<inter> live_before rest u = {} then live_before rest u
      else live_before rest u \<union> input_vars op \<union> \<Union> (used_of ` set (blocks op)))"

fun marked :: "operation list \<Rightarrow> var set \<Rightarrow> operation list" where
  "marked [] u = []"
| "marked (op # rest) u =
     (if set (outputs op) \<inter> live_before rest u = {} then op else sweep_op op) # marked rest u"

fun removed :: "nat \<Rightarrow> operation list \<Rightarrow> var set \<Rightarrow> (nat \<times> operation) list" where
  "removed i [] u = []"
| "removed i (op # rest) u =
     removed (Suc i) rest u @ (if set (outputs op) \<inter> live_before rest u = {} then [(i, op)] else [])"

fun nested_logs :: "operation list \<Rightarrow> var set \<Rightarrow> string list" where
  "nested_logs [] u = []"
| "nested_logs (op # rest) u =
     nested_logs rest u @
     (if set (outputs op) \<inter> live_before rest u = {} then [] else concat (map log_of (blocks op)))"

fun kept :: "operation list \<Rightarrow> var set \<Rightarrow> operation list" where
  "kept [] u = []"
| "kept (op # rest) u =
     (if set (outputs op) \<inter> live_before rest u = {} then kept rest u else sweep_op op # kept rest u)"

section \<open>Notions of the specification\<close>

text \<open>
  The definitions of this section follow the words of the specification; they are what
  the results of the pass are compared with.

  What a scope consumes: its declared outputs, the inputs of its operations and what the
  nested scopes of its operations consume.
\<close>

fun uses_block :: "block \<Rightarrow> var set"
and uses_ops :: "operation list \<Rightarrow> var set"
and uses_blocks :: "block list \<Rightarrow> var set" where
  "uses_block (Block ops outs) = set outs \<union> uses_ops ops"
| "uses_ops [] = {}"
| "uses_ops (Operation nm ty ins os bs # rest) = inputs_vars ins \<union> uses_blocks bs \<union> uses_ops rest"
| "uses_blocks [] = {}"
| "uses_blocks (b # bs) = uses_block b \<union> uses_blocks bs"

text \<open>
  The variables that the operations of a scope define, those of the nested scopes
  included, as a list: a variable with two producers occurs twice.
\<close>

fun defs_block :: "block \<Rightarrow> var list"
and defs_ops :: "operation list \<Rightarrow> var list"
and defs_blocks :: "block list \<Rightarrow> var list" where
  "defs_block (Block ops outs) = defs_ops ops"
| "defs_ops [] = []"
| "defs_ops (Operation nm ty ins os bs # rest) = os @ defs_blocks bs @ defs_ops rest"
| "defs_blocks [] = []"
| "defs_blocks (b # bs) = defs_block b @ defs_blocks bs"

text \<open>
  The free variables of a scope: the variables it consumes but does not define itself.
\<close>

definition free_vars :: "block \<Rightarrow> var set" where
  "free_vars b = uses_block b - set (defs_block b)"

text \<open>
  Well-formedness. Single assignment: no variable has two producers. Definition order and
  lexical visibility: the inputs of an operation, what its nested scopes refer to and
  the declared outputs of a scope are defined by an earlier operation of the same scope
  or are visible from the enclosing scope; the parameters of the function are visible in
  its root scope.
\<close>

definition ssa :: "block \<Rightarrow> bool" where
  "ssa b = distinct (defs_block b)"

fun scoped_block :: "var set \<Rightarrow> block \<Rightarrow> bool"
and scoped_ops :: "var set \<Rightarrow> operation list \<Rightarrow> var list \<Rightarrow> bool"
and scoped_blocks :: "var set \<Rightarrow> block list \<Rightarrow> bool" where
  "scoped_block vis (Block ops outs) = scoped_ops vis ops outs"
| "scoped_ops vis [] outs = (set outs \<subseteq> vis)"
| "scoped_ops vis (Operation nm ty ins os bs # rest) outs =
     (inputs_vars ins \<subseteq> vis \<and> scoped_blocks vis bs \<and> scoped_ops (vis \<union> set os) rest outs)"
| "scoped_blocks vis [] = True"
| "scoped_blocks vis (b # bs) = (scoped_block vis b \<and> scoped_blocks vis bs)"

definition well_formed :: "var set \<Rightarrow> block \<Rightarrow> bool" where
  "well_formed params b = (ssa b \<and> set (defs_block b) \<inter> params = {} \<and> scoped_block params b)"

text \<open>
  Reachability from the declared outputs of a scope: a declared output is reachable; the
  inputs of an operation with a reachable output are reachable; and so is a variable
  that a nested scope of such an operation captures, that is, one that is reachable in
  the nested scope and not defined there.
\<close>

inductive reach :: "block \<Rightarrow> var \<Rightarrow> bool" where
  reach_output: "v \<in> set (block_outputs b) \<Longrightarrow> reach b v"
| reach_input: "op \<in> set (operations b) \<Longrightarrow> w \<in> set (outputs op) \<Longrightarrow> reach b w
     \<Longrightarrow> v \<in> input_vars op \<Longrightarrow> reach b v"
| reach_capture: "op \<in> set (operations b) \<Longrightarrow> w \<in> set (outputs op) \<Longrightarrow> reach b w
     \<Longrightarrow> nb \<in> set (blocks op) \<Longrightarrow> reach nb v \<Longrightarrow> v \<notin> set (defs_block nb) \<Longrightarrow> reach b v"

code_pred reach .

text \<open>
  \<^verbatim>\<open>ops_to_remove\<close> as the sweep of a block leaves it: the dead operations with their
  positions, in the order in which line 63 appended them.
\<close>

definition ops_to_remove :: "block \<Rightarrow> (nat \<times> operation) list" where
  "ops_to_remove b = fst (snd (sweep 0 (operations b) (set (block_outputs b))))"

text \<open>
  The variables defined inside the nested blocks of a list of operations, and an
  operation without its nested blocks (what identifies it in its own scope).
\<close>

definition inner_defs :: "operation list \<Rightarrow> var set" where
  "inner_defs ops = (\<Union>op\<in>set ops. set (defs_blocks (blocks op)))"

definition op_shallow :: "operation \<Rightarrow> string \<times> string \<times> (string \<times> input_ref) list \<times> var list" where
  "op_shallow op = (name op, op_type op, inputs op, outputs op)"

text \<open>
  The number of operations of a scope, those of the nested scopes included.
\<close>

fun count_block :: "block \<Rightarrow> nat"
and count_ops :: "operation list \<Rightarrow> nat"
and count_blocks :: "block list \<Rightarrow> nat" where
  "count_block (Block ops outs) = count_ops ops"
| "count_ops [] = 0"
| "count_ops (Operation nm ty ins os bs # rest) = 1 + count_blocks bs + count_ops rest"
| "count_blocks [] = 0"
| "count_blocks (b # bs) = count_block b + count_blocks bs"

section \<open>The pass as a run that may not return\<close>

text \<open>
  For termination and the order of the visits, the same code once more, now as a function
  that is not assumed to return (\<open>None\<close> stands for a call that never returns) and that
  records what it does: \<open>Enter p\<close> when the call on the block at path \<open>p\<close> starts (line 53),
  \<open>Visit\<close> for every iteration of the loop of line 60, with the path of the operation it
  visits, and \<open>Exit p\<close> when the call returns (line 81). The root block has the empty path,
  the operation at position \<open>i\<close> of the block at \<open>p\<close> has the path \<open>p @ [i]\<close>, and its
  \<open>j\<close>-th nested block the path \<open>p @ [i, j]\<close>. The three kinds of call are the three
  functions of the pass: the call on a block, the loop over the operations and the loop
  over \<^verbatim>\<open>op.blocks\<close>. Apart from the events, every line is the one of \<open>dce_block\<close>,
  \<open>sweep\<close> and \<open>dce_blocks\<close>.
\<close>

datatype event = Enter "nat list" | Visit "nat list" | Exit "nat list"






fun visits :: "event list \<Rightarrow> nat list list" where
  "visits [] = []"
| "visits (Visit q # tr) = q # visits tr"
| "visits (e # tr) = visits tr"



section \<open>Example blocks\<close>

definition const_block :: block where
  "const_block = Block [Operation ''c'' ''const'' [] [1] []] [1]"

definition scenarioB :: block where
  "scenarioB = Block
     [Operation ''k'' ''const'' [] [1] [],
      Operation ''loop'' ''while_loop'' [(''loop_vars'', Multi [0])] [2]
        [Block [Operation ''add'' ''add'' [(''x'', Single 1), (''y'', Single 0)] [3] []] [3]]]
     [2]"

text \<open>
  The example of the docstring of the pass: \<^verbatim>\<open>%matmul_0\<close> is not used, \<^verbatim>\<open>%x\<close> (variable 1)
  is the parameter of the function.
\<close>

definition scenarioA :: block where
  "scenarioA = Block
     [Operation ''const_2'' ''const'' [] [2] [],
      Operation ''const_3'' ''const'' [] [3] [],
      Operation ''tx_0'' ''const'' [] [4] [],
      Operation ''ty_0'' ''const'' [] [5] [],
      Operation ''matmul_0'' ''matmul''
        [(''x'', Single 1), (''y'', Single 2), (''transpose_x'', Single 4),
         (''transpose_y'', Single 5)] [6] [],
      Operation ''linear_0'' ''linear''
        [(''x'', Single 1), (''weight'', Single 2), (''bias'', Single 3)] [7] []]
     [7]"

text \<open>An operation without live output that owns a nested block.\<close>

definition scenarioC :: block where
  "scenarioC = Block
     [Operation ''dead_loop'' ''while_loop'' [(''loop_vars'', Multi [0])] [1]
        [Block [Operation ''inner'' ''add'' [(''x'', Single 0), (''y'', Single 0)] [2] []] [2]],
      Operation ''r'' ''relu'' [(''x'', Single 0)] [3] []]
     [3]"

section \<open>The closed form is what the pass computes\<close>

lemma dce_block_eq: "dce_block b = (used_of b, swept b, log_of b)"
  by (simp add: used_of_def swept_def log_of_def)

lemma dce_blocks_char:
  "dce_blocks bs u = (u \<union> \<Union> (used_of ` set bs), map swept bs, concat (map log_of bs))"
  by (induction bs arbitrary: u) (auto simp: dce_block_eq)

lemma sweep_char:
  "sweep i ops u = (live_before ops u, removed i ops u, marked ops u, nested_logs ops u)"
proof (induction ops arbitrary: i)
  case Nil
  show ?case by simp
next
  case (Cons op rest)
  show ?case
    by (cases op) (simp add: Cons.IH dce_blocks_char input_vars_def sweep_op_def Un_assoc)
qed

lemma remove_loop_char:
  "remove_loop rm tagged lg =
     (filter (\<lambda>(j, _). j \<notin> fst ` set rm) tagged, lg @ map (\<lambda>(_, op). removing_msg op) rm)"
proof (induction rm arbitrary: tagged lg)
  case Nil
  show ?case by simp
next
  case (Cons r rm)
  show ?case
    by (cases r) (auto simp: Cons.IH remove_from_block_def intro!: filter_cong)
qed

lemma length_marked: "length (marked ops u) = length ops"
  by (induction ops) auto

lemma removed_positions: "(j, x) \<in> set (removed i ops u) \<Longrightarrow> i \<le> j"
  by (induction ops arbitrary: i) (auto split: if_splits dest: Suc_leD)

lemma kept_char:
  "map snd (filter (\<lambda>(j, _). j \<notin> fst ` set (removed i ops u)) (enumerate i (marked ops u)))
     = kept ops u"
proof (induction ops arbitrary: i)
  case Nil
  show ?case by simp
next
  case (Cons op rest)
  have *: "filter (\<lambda>(j, _). j \<noteq> i \<and> j \<notin> fst ` set (removed (Suc i) rest u))
             (enumerate (Suc i) (marked rest u))
         = filter (\<lambda>(j, _). j \<notin> fst ` set (removed (Suc i) rest u))
             (enumerate (Suc i) (marked rest u))"
    by (rule filter_cong) (auto simp: in_set_enumerate_eq)
  have **: "i \<notin> fst ` set (removed (Suc i) rest u)"
    by (auto dest: removed_positions)
  show ?case
    using Cons.IH [of "Suc i"] by (simp add: * **)
qed

lemma dce_block_char:
  "dce_block (Block ops outs) =
     (live_before ops (set outs), Block (kept ops (set outs)) outs,
      nested_logs ops (set outs) @ map (\<lambda>(_, op). removing_msg op) (removed 0 ops (set outs)))"
  by (simp add: sweep_char remove_loop_char kept_char)

lemma block_induct [case_names Block]:
  assumes "\<And>ops outs. (\<And>op nb. op \<in> set ops \<Longrightarrow> nb \<in> set (blocks op) \<Longrightarrow> P nb) \<Longrightarrow> P (Block ops outs)"
  shows "P b"
proof -
  have "(\<forall>nb\<in>set (blocks op). P nb) \<and> P b" for op :: operation
    by (rule operation_block.induct) (auto intro: assms)
  then show ?thesis by blast
qed

lemma used_of_Block: "used_of (Block ops outs) = live_before ops (set outs)"
  unfolding used_of_def dce_block_char by simp

lemma swept_Block: "swept (Block ops outs) = Block (kept ops (set outs)) outs"
  unfolding swept_def dce_block_char by simp

lemma log_of_Block: "log_of (Block ops outs) =
    nested_logs ops (set outs) @ map (\<lambda>(_, op). removing_msg op) (removed 0 ops (set outs))"
  unfolding log_of_def dce_block_char by simp

lemma uses_blocks_char: "uses_blocks bs = \<Union> (uses_block ` set bs)"
  by (induction bs) auto

lemma uses_ops_Cons: "uses_ops (op # rest) = input_vars op \<union> uses_blocks (blocks op) \<union> uses_ops rest"
  by (cases op) (simp add: input_vars_def)

lemma sweep_op_sel [simp]:
  "name (sweep_op op) = name op" "op_type (sweep_op op) = op_type op"
  "inputs (sweep_op op) = inputs op" "outputs (sweep_op op) = outputs op"
  "blocks (sweep_op op) = map swept (blocks op)" "input_vars (sweep_op op) = input_vars op"
  by (simp_all add: sweep_op_def input_vars_def)

lemma live_before_uses:
  assumes "\<forall>op\<in>set ops. \<forall>nb\<in>set (blocks op). used_of nb = uses_block (swept nb)"
  shows "live_before ops u = u \<union> uses_ops (kept ops u)"
  using assms
proof (induction ops)
  case Nil
  show ?case by simp
next
  case (Cons op rest)
  have rest: "live_before rest u = u \<union> uses_ops (kept rest u)"
    using Cons by simp
  have nested: "\<Union> (used_of ` set (blocks op)) = uses_blocks (map swept (blocks op))"
    using Cons.prems by (simp add: uses_blocks_char)
  show ?case
    unfolding live_before.simps kept.simps rest
    by (auto simp: uses_ops_Cons nested)
qed

lemma used_of_uses: "used_of b = uses_block (swept b)"
proof (induction b rule: block_induct)
  case (Block ops outs)
  then show ?case
    by (simp add: used_of_Block swept_Block live_before_uses)
qed

lemma sweep_op_idem:
  assumes "\<forall>nb\<in>set (blocks op). swept (swept nb) = swept nb"
  shows "sweep_op (sweep_op op) = sweep_op op"
  using assms by (simp add: sweep_op_def)

lemma idem_sweep:
  assumes "\<forall>op\<in>set ops. \<forall>nb\<in>set (blocks op).
             used_of (swept nb) = used_of nb \<and> swept (swept nb) = swept nb \<and> log_of (swept nb) = []"
  shows "live_before (kept ops u) u = live_before ops u \<and> kept (kept ops u) u = kept ops u
         \<and> removed i (kept ops u) u = [] \<and> nested_logs (kept ops u) u = []"
  using assms
proof (induction ops arbitrary: i)
  case Nil
  show ?case by simp
next
  case (Cons op rest)
  have IH: "live_before (kept rest u) u = live_before rest u" "kept (kept rest u) u = kept rest u"
      "removed j (kept rest u) u = []" "nested_logs (kept rest u) u = []" for j
    using Cons.IH [of j] Cons.prems by simp_all
  have nb: "\<forall>nb\<in>set (blocks op). used_of (swept nb) = used_of nb \<and> swept (swept nb) = swept nb \<and> log_of (swept nb) = []"
    using Cons.prems by simp
  show ?case
  proof (cases "set (outputs op) \<inter> live_before rest u = {}")
    case True
    then show ?thesis by (simp add: IH)
  next
    case False
    then show ?thesis using nb by (simp add: IH sweep_op_idem)
  qed
qed


lemma dce_block_idem: "dce_block (swept b) = (used_of b, swept b, [])"
proof (induction b rule: block_induct)
  case (Block ops outs)
  have "\<forall>op\<in>set ops. \<forall>nb\<in>set (blocks op).
          used_of (swept nb) = used_of nb \<and> swept (swept nb) = swept nb \<and> log_of (swept nb) = []"
    using Block by (simp add: used_of_def swept_def log_of_def)
  from idem_sweep [OF this, of "set outs" 0] show ?case
    unfolding swept_Block used_of_Block dce_block_char by simp
qed

lemma defs_ops_Cons [simp]:
  "defs_ops (op # rest) = outputs op @ defs_blocks (blocks op) @ defs_ops rest"
  by (cases op) simp

lemma set_defs_blocks: "set (defs_blocks bs) = (\<Union>nb\<in>set bs. set (defs_block nb))"
  by (induction bs) auto

lemma set_defs_ops:
  "set (defs_ops ops) = (\<Union>op\<in>set ops. set (outputs op)) \<union> inner_defs ops"
  by (induction ops) (auto simp: inner_defs_def)

lemma distinct_defs_blocks: "distinct (defs_blocks bs) \<Longrightarrow> nb \<in> set bs \<Longrightarrow> distinct (defs_block nb)"
  by (induction bs) auto

lemma distinct_defs_nested:
  "distinct (defs_ops ops) \<Longrightarrow> op \<in> set ops \<Longrightarrow> nb \<in> set (blocks op) \<Longrightarrow> distinct (defs_block nb)"
  by (induction ops) (auto dest: distinct_defs_blocks)

lemma outputs_inner_disjoint:
  "distinct (defs_ops ops) \<Longrightarrow> op \<in> set ops \<Longrightarrow> set (outputs op) \<inter> inner_defs ops = {}"
proof (induction ops)
  case Nil
  then show ?case by simp
next
  case (Cons x rest)
  have dx: "set (outputs x) \<inter> set (defs_blocks (blocks x)) = {}"
    and dr: "set (outputs x) \<inter> set (defs_ops rest) = {}"
    and br: "set (defs_blocks (blocks x)) \<inter> set (defs_ops rest) = {}"
    and rest: "distinct (defs_ops rest)"
    using Cons.prems(1) by auto
  have inner: "inner_defs (x # rest) = set (defs_blocks (blocks x)) \<union> inner_defs rest"
    by (simp add: inner_defs_def)
  show ?case
  proof (cases "op = x")
    case True
    then show ?thesis using dx dr by (auto simp: inner set_defs_ops)
  next
    case False
    then have mem: "op \<in> set rest" using Cons.prems(2) by simp
    then have "set (outputs op) \<subseteq> set (defs_ops rest)"
      by (auto simp: set_defs_ops)
    then have "set (outputs op) \<inter> set (defs_blocks (blocks x)) = {}"
      using br by auto
    then show ?thesis using Cons.IH [OF rest mem] by (auto simp: inner)
  qed
qed

lemma live_before_mono: "u \<subseteq> live_before ops u"
  by (induction ops) auto

lemma live_before_reach:
  assumes "\<forall>op\<in>set xs. \<forall>nb\<in>set (blocks op). used_of nb \<subseteq> {v. reach nb v} \<union> set (defs_block nb)"
    and "set xs \<subseteq> set (operations b)"
    and "\<forall>op\<in>set xs. set (outputs op) \<inter> D = {}"
    and "\<forall>op\<in>set xs. set (defs_blocks (blocks op)) \<subseteq> D"
    and "u \<subseteq> {v. reach b v} \<union> D"
  shows "live_before xs u \<subseteq> {v. reach b v} \<union> D"
  using assms
proof (induction xs)
  case Nil
  then show ?case by simp
next
  case (Cons op rest)
  have IH: "live_before rest u \<subseteq> {v. reach b v} \<union> D"
    using Cons by simp
  show ?case
  proof (cases "set (outputs op) \<inter> live_before rest u = {}")
    case True
    then show ?thesis using IH by simp
  next
    case False
    then obtain w where w: "w \<in> set (outputs op)" "w \<in> live_before rest u"
      by blast
    have "w \<notin> D" using w(1) Cons.prems(3) by auto
    then have rw: "reach b w" using w(2) IH by auto
    have opb: "op \<in> set (operations b)" using Cons.prems(2) by simp
    have ins: "input_vars op \<subseteq> {v. reach b v}"
      using opb w(1) rw by (auto intro: reach_input)
    have nested: "used_of nb \<subseteq> {v. reach b v} \<union> D" if nb: "nb \<in> set (blocks op)" for nb
    proof
      fix v assume v: "v \<in> used_of nb"
      show "v \<in> {v. reach b v} \<union> D"
      proof (cases "v \<in> set (defs_block nb)")
        case True
        then have "v \<in> set (defs_blocks (blocks op))"
          using nb by (auto simp: set_defs_blocks)
        then show ?thesis using Cons.prems(4) by auto
      next
        case False
        have "used_of nb \<subseteq> {v. reach nb v} \<union> set (defs_block nb)"
          using Cons.prems(1) nb by simp
        then have "reach nb v" using v False by auto
        with opb w(1) rw nb have "reach b v"
          using False by (rule reach_capture)
        then show ?thesis by simp
      qed
    qed
    show ?thesis using False IH ins nested by auto
  qed
qed

lemma used_of_reach:
  "distinct (defs_block b) \<Longrightarrow> used_of b \<subseteq> {v. reach b v} \<union> inner_defs (operations b)"
proof (induction b rule: block_induct)
  case (Block ops outs)
  have d: "distinct (defs_ops ops)" using Block.prems by simp
  have nested: "\<forall>op\<in>set ops. \<forall>nb\<in>set (blocks op).
      used_of nb \<subseteq> {v. reach nb v} \<union> set (defs_block nb)"
  proof (intro ballI)
    fix op nb assume m: "op \<in> set ops" "nb \<in> set (blocks op)"
    have "used_of nb \<subseteq> {v. reach nb v} \<union> inner_defs (operations nb)"
      using Block.IH [OF m] distinct_defs_nested [OF d m] by simp
    moreover have "inner_defs (operations nb) \<subseteq> set (defs_block nb)"
      by (cases nb) (auto simp: set_defs_ops)
    ultimately show "used_of nb \<subseteq> {v. reach nb v} \<union> set (defs_block nb)" by blast
  qed
  have "live_before ops (set outs) \<subseteq> {v. reach (Block ops outs) v} \<union> inner_defs ops"
  proof (rule live_before_reach [OF nested])
    show "set ops \<subseteq> set (operations (Block ops outs))" by simp
    show "\<forall>op\<in>set ops. set (outputs op) \<inter> inner_defs ops = {}"
      using outputs_inner_disjoint [OF d] by blast
    show "\<forall>op\<in>set ops. set (defs_blocks (blocks op)) \<subseteq> inner_defs ops"
      by (auto simp: inner_defs_def)
    show "set outs \<subseteq> {v. reach (Block ops outs) v} \<union> inner_defs ops"
      by (auto intro: reach_output)
  qed
  then show ?case by (simp add: used_of_Block)
qed

lemma live_before_Cons_mono: "live_before rest u \<subseteq> live_before (op # rest) u"
  by auto

lemma removed_dead:
  "k < length ops \<Longrightarrow> set (outputs (ops ! k)) \<inter> live_before ops u = {}
     \<Longrightarrow> (i + k, ops ! k) \<in> set (removed i ops u)"
proof (induction ops arbitrary: i k)
  case Nil
  then show ?case by simp
next
  case (Cons op rest)
  show ?case
  proof (cases k)
    case 0
    then show ?thesis using Cons.prems live_before_Cons_mono [of rest u op] by auto
  next
    case (Suc k')
    then have "set (outputs (rest ! k')) \<inter> live_before rest u = {}"
      using Cons.prems live_before_Cons_mono [of rest u op] by auto
    then have "(Suc i + k', rest ! k') \<in> set (removed (Suc i) rest u)"
      using Cons.IH [of k' "Suc i"] Cons.prems(1) Suc by simp
    then show ?thesis using Suc by simp
  qed
qed

lemma ops_to_remove_char: "ops_to_remove b = removed 0 (operations b) (set (block_outputs b))"
  by (simp add: ops_to_remove_def sweep_char)

lemma kept_nths:
  "kept ops u = map sweep_op (nths ops {j. i + j \<notin> fst ` set (removed i ops u)})"
proof (induction ops arbitrary: i)
  case Nil
  show ?case by simp
next
  case (Cons op rest)
  have notin: "i \<notin> fst ` set (removed (Suc i) rest u)"
    by (auto dest: removed_positions)
  show ?case
    using Cons.IH [of "Suc i"] notin by (simp add: nths_Cons image_Un)
qed

lemma subseq_imp_distinct: "subseq xs ys \<Longrightarrow> distinct ys \<Longrightarrow> distinct xs"
  by (auto simp: subseq_conv_nths intro: distinct_nthsI)

lemma subseq_defs_blocks:
  "\<forall>nb\<in>set bs. subseq (defs_block (swept nb)) (defs_block nb)
     \<Longrightarrow> subseq (defs_blocks (map swept bs)) (defs_blocks bs)"
  by (induction bs) (auto intro: list_emb_append_mono)

lemma subseq_defs_kept:
  "\<forall>op\<in>set ops. \<forall>nb\<in>set (blocks op). subseq (defs_block (swept nb)) (defs_block nb)
     \<Longrightarrow> subseq (defs_ops (kept ops u)) (defs_ops ops)"
proof (induction ops)
  case Nil
  show ?case by simp
next
  case (Cons op rest)
  have IH: "subseq (defs_ops (kept rest u)) (defs_ops rest)"
    using Cons by simp
  have bs: "subseq (defs_blocks (map swept (blocks op))) (defs_blocks (blocks op))"
    using Cons.prems by (intro subseq_defs_blocks) simp
  show ?case
  proof (cases "set (outputs op) \<inter> live_before rest u = {}")
    case True
    have "subseq (defs_ops (kept rest u)) ((outputs op @ defs_blocks (blocks op)) @ defs_ops rest)"
      using IH by (rule subseq_drop_many)
    then show ?thesis using True by simp
  next
    case False
    have "subseq (outputs op @ defs_blocks (map swept (blocks op)) @ defs_ops (kept rest u))
                 (outputs op @ defs_blocks (blocks op) @ defs_ops rest)"
      using bs IH by (intro list_emb_append_mono) simp_all
    then show ?thesis using False by simp
  qed
qed

lemma subseq_defs_swept: "subseq (defs_block (swept b)) (defs_block b)"
proof (induction b rule: block_induct)
  case (Block ops outs)
  then show ?case by (simp add: swept_Block subseq_defs_kept)
qed

lemma ssa_swept: "ssa b \<Longrightarrow> ssa (swept b)"
  unfolding ssa_def using subseq_defs_swept by (rule subseq_imp_distinct)

lemma kept_live:
  "op \<in> set (kept xs u) \<Longrightarrow> set (outputs op) \<inter> live_before xs u \<noteq> {}"
proof (induction xs)
  case Nil
  then show ?case by simp
next
  case (Cons x rest)
  show ?case
  proof (cases "set (outputs x) \<inter> live_before rest u = {}")
    case True
    then show ?thesis using Cons by simp
  next
    case False
    show ?thesis
    proof (cases "op = sweep_op x")
      case True
      then show ?thesis using False by auto
    next
      case False
      then have "set (outputs op) \<inter> live_before rest u \<noteq> {}"
        using Cons \<open>set (outputs x) \<inter> live_before rest u \<noteq> {}\<close> by simp
      then show ?thesis by auto
    qed
  qed
qed

lemma swept_ops_reachable:
  assumes "ssa b" and "op \<in> set (operations (swept b))"
  shows "\<exists>v\<in>set (outputs op). reach (swept b) v"
proof -
  obtain ks outs where c: "swept b = Block ks outs"
    by (cases "swept b")
  have idem: "dce_block (swept b) = (used_of b, swept b, [])"
    by (rule dce_block_idem)
  have "swept (swept b) = swept b"
    unfolding swept_def [of "swept b"] idem by simp
  then have ks: "kept ks (set outs) = ks"
    by (simp add: c swept_Block)
  have d: "distinct (defs_ops ks)"
    using ssa_swept [OF assms(1)] by (simp add: ssa_def c)
  have opk: "op \<in> set ks" using assms(2) c by simp
  then have "op \<in> set (kept ks (set outs))" using ks by simp
  then have live: "set (outputs op) \<inter> live_before ks (set outs) \<noteq> {}"
    by (rule kept_live)
  have "live_before ks (set outs) \<subseteq> {v. reach (Block ks outs) v} \<union> inner_defs ks"
    using used_of_reach [of "Block ks outs"] d by (simp add: used_of_Block)
  moreover have "set (outputs op) \<inter> inner_defs ks = {}"
    using d opk by (rule outputs_inner_disjoint)
  ultimately show ?thesis using live c by auto
qed

lemma reach_scenarioA: "reach b v \<Longrightarrow> b = scenarioA \<Longrightarrow> v \<in> {1, 2, 3, 7}"
  by (induction rule: reach.induct) (auto simp: scenarioA_def input_vars_def inputs_vars_def)

lemma live_before_append: "live_before (xs @ ys) u = live_before xs (live_before ys u)"
  by (induction xs) auto

lemma kept_append: "kept (xs @ ys) u = kept xs (live_before ys u) @ kept ys u"
  by (induction xs) (auto simp: live_before_append)

lemma nested_logs_append:
  "nested_logs (xs @ ys) u = nested_logs ys u @ nested_logs xs (live_before ys u)"
  by (induction xs) (auto simp: live_before_append)

lemma removed_append:
  "removed i (xs @ ys) u = removed (i + length xs) ys u @ removed i xs (live_before ys u)"
  by (induction xs arbitrary: i) (auto simp: live_before_append)

lemma marked_append: "marked (xs @ ys) u = marked xs (live_before ys u) @ marked ys u"
  by (induction xs) (auto simp: live_before_append)

lemma dead_op_result:
  assumes "set (outputs op) \<inter> live_before post u = {}"
  shows "live_before (pre @ op # post) u = live_before pre (live_before post u)"
    and "kept (pre @ op # post) u = kept pre (live_before post u) @ kept post u"
    and "nested_logs (pre @ op # post) u = nested_logs post u @ nested_logs pre (live_before post u)"
    and "removed 0 (pre @ op # post) u =
           removed (Suc (length pre)) post u @ [(length pre, op)] @ removed 0 pre (live_before post u)"
  using assms by (simp_all add: live_before_append kept_append nested_logs_append removed_append)

lemma subseq_shallow_kept: "subseq (map op_shallow (kept ops u)) (map op_shallow ops)"
  by (induction ops) (auto simp: op_shallow_def)

lemma removed_positions_upper: "(j, x) \<in> set (removed i ops u) \<Longrightarrow> j < i + length ops"
  by (induction ops arbitrary: i) (force split: if_splits)+

lemma map_shallow_marked: "map op_shallow (marked ops u) = map op_shallow ops"
  by (induction ops) (auto simp: op_shallow_def)

section \<open>The run returns what the pass computes\<close>





lemma visits_append [simp]: "visits (xs @ ys) = visits xs @ visits ys"
  by (induction xs rule: visits.induct) simp_all

lemma count_ops_Cons: "count_ops (op # rest) = 1 + count_blocks (blocks op) + count_ops rest"
  by (cases op) simp









section \<open>The returned set\<close>

text \<open>
  Claim C1, as stated: for a well-formed scope the returned set is exactly the set of
  free variables of the scope, and no variable defined by an operation of the scope is
  in it. The block with one constant operation whose output is the output of the block
  is well formed and has no free variable, yet the pass returns its output.
\<close>

theorem returned_set_free_vars_counterexample:
  "well_formed {} const_block \<and> fst (dce_block const_block) \<noteq> free_vars const_block
   \<and> 1 \<in> fst (dce_block const_block) \<and> 1 \<in> set (defs_block const_block)"
  by (simp add: const_block_def well_formed_def ssa_def free_vars_def inputs_vars_def
      remove_from_block_def)

text \<open>
  Claim C1, amended: for every well-formed scope (single assignment, definition order and
  lexical visibility, for some set of parameters visible from outside) the returned set
  is the set of all variables that the scope, as the pass leaves it, consumes: its
  declared outputs, the inputs of its remaining operations and, in the same way, what the
  nested scopes of the remaining operations consume, whether or not the scope defines
  them. So it contains every free variable of that scope, and variables defined inside
  it as well.
\<close>

theorem returned_set_is_consumed:
  assumes "well_formed params b"
  shows "fst (dce_block b) = uses_block (fst (snd (dce_block b)))
   \<and> free_vars (fst (snd (dce_block b))) \<subseteq> fst (dce_block b)"
  using used_of_uses [of b] by (auto simp: used_of_def swept_def free_vars_def)

theorem returned_set_is_consumed_witness:
  "well_formed {0} scenarioB
   \<and> fst (dce_block scenarioB) = {0, 1, 2, 3}
   \<and> uses_block (fst (snd (dce_block scenarioB))) = {0, 1, 2, 3}
   \<and> free_vars (fst (snd (dce_block scenarioB))) = {0}"
proof -
  have wf: "well_formed {0} scenarioB"
    by code_simp
  have used: "fst (dce_block scenarioB) = {0, 1, 2, 3}"
    by code_simp
  have free: "free_vars (fst (snd (dce_block scenarioB))) = {0}"
    by code_simp
  show ?thesis
    using returned_set_is_consumed [OF wf] wf used free by simp
qed

text \<open>
  Claim C10: the returned set contains the declared outputs of the scope, also those
  that operations of the scope define; and the set returned for the enclosing scope
  contains the declared outputs of every nested scope of an operation that remains.
\<close>

theorem returned_set_contains_outputs:
  "set (block_outputs b) \<subseteq> fst (dce_block b)
   \<and> (\<forall>op\<in>set (operations (fst (snd (dce_block b)))). \<forall>nb\<in>set (blocks op).
        set (block_outputs nb) \<subseteq> fst (dce_block b))"
proof -
  obtain ops outs where sw: "swept b = Block ops outs"
    by (cases "swept b")
  have outs: "block_outputs b = outs"
    using sw by (cases b) (simp add: swept_Block)
  have "set (block_outputs nb) \<subseteq> uses_block nb" for nb
    by (cases nb) auto
  then have "\<forall>op\<in>set ops. \<forall>nb\<in>set (blocks op). set (block_outputs nb) \<subseteq> uses_ops ops"
    by (induction ops) (fastforce simp: uses_ops_Cons uses_blocks_char)+
  then show ?thesis
    using used_of_uses [of b] sw outs by (auto simp: used_of_def swept_def)
qed

theorem returned_set_contains_outputs_witness:
  "2 \<in> fst (dce_block scenarioB) \<and> 2 \<in> set (defs_block scenarioB)
   \<and> 3 \<in> fst (dce_block scenarioB) \<and> 3 \<in> set (defs_block scenarioB)"
  using returned_set_contains_outputs [of scenarioB]
  by (simp add: scenarioB_def inputs_vars_def remove_from_block_def)

section \<open>Idempotence and the empty scope\<close>

text \<open>
  Claim C6: a second run of the pass on the scope the first run leaves removes nothing:
  it returns the same set, leaves the scope as it is and logs no removal.
\<close>

theorem dce_idempotent:
  "dce_block (fst (snd (dce_block b))) = (fst (dce_block b), fst (snd (dce_block b)), [])"
  using dce_block_idem [of b] by (simp add: used_of_def swept_def)

text \<open>
  Claim C8: on the scope with no operations and no outputs the pass removes nothing,
  logs nothing and returns the empty set.
\<close>

theorem empty_scope:
  "dce_block (Block [] []) = ({}, Block [] [], [])"
  by simp

section \<open>Reachability\<close>

text \<open>
  Claim C2 (reachability completeness): in a scope whose defined variables are pairwise
  distinct (the single-assignment part of well-formedness), an operation none of whose
  outputs is reachable from the declared outputs of the scope is put on \<^verbatim>\<open>ops_to_remove\<close>,
  and the operations of the scope after the pass are those at the positions that
  are not on that list.
\<close>

theorem unreachable_ops_removed:
  assumes "ssa b" and "k < length (operations b)"
    and "\<forall>v\<in>set (outputs (operations b ! k)). \<not> reach b v"
  shows "(k, operations b ! k) \<in> set (ops_to_remove b)
     \<and> operations (fst (snd (dce_block b)))
         = map sweep_op (nths (operations b) {j. j \<notin> fst ` set (ops_to_remove b)})"
proof -
  obtain ops outs where b: "b = Block ops outs"
    by (cases b)
  have d: "distinct (defs_ops ops)"
    using assms(1) by (simp add: ssa_def b)
  have opk: "ops ! k \<in> set ops"
    using assms(2) by (simp add: b)
  have "live_before ops (set outs) \<subseteq> {v. reach b v} \<union> inner_defs ops"
    using used_of_reach [of b] d by (simp add: b used_of_Block)
  moreover have "set (outputs (ops ! k)) \<inter> inner_defs ops = {}"
    using d opk by (rule outputs_inner_disjoint)
  ultimately have "set (outputs (ops ! k)) \<inter> live_before ops (set outs) = {}"
    using assms(3) by (auto simp: b)
  then have "(0 + k, ops ! k) \<in> set (removed 0 ops (set outs))"
    using assms(2) by (intro removed_dead) (simp_all add: b)
  moreover have "kept ops (set outs)
      = map sweep_op (nths ops {j. 0 + j \<notin> fst ` set (removed 0 ops (set outs))})"
    by (rule kept_nths)
  ultimately show ?thesis
    using swept_Block [of ops outs] by (simp add: b ops_to_remove_char swept_def)
qed

theorem unreachable_ops_removed_witness:
  "ssa scenarioA \<and> 4 < length (operations scenarioA)
   \<and> outputs (operations scenarioA ! 4) = [6] \<and> \<not> reach scenarioA 6
   \<and> (4, operations scenarioA ! 4) \<in> set (ops_to_remove scenarioA)
   \<and> map name (operations (fst (snd (dce_block scenarioA)))) = [''const_2'', ''const_3'', ''linear_0'']"
proof -
  have h1: "ssa scenarioA"
    by code_simp
  have h2: "4 < length (operations scenarioA)"
    by code_simp
  have out: "outputs (operations scenarioA ! 4) = [6]"
    by code_simp
  have unreachable: "\<not> reach scenarioA 6"
    using reach_scenarioA [of scenarioA 6] by auto
  have h3: "\<forall>v\<in>set (outputs (operations scenarioA ! 4)). \<not> reach scenarioA v"
    using out unreachable by simp
  have names: "map name (operations (fst (snd (dce_block scenarioA))))
      = [''const_2'', ''const_3'', ''linear_0'']"
    by code_simp
  from unreachable_ops_removed [OF h1 h2 h3]
  have "(4, operations scenarioA ! 4) \<in> set (ops_to_remove scenarioA)"
    by (rule conjunct1)
  then show ?thesis
    using h1 h2 out unreachable names by blast
qed

text \<open>
  Claim C3 (reachability soundness): in such a scope, after the pass, every remaining
  operation has an output that is reachable, in the scope as the pass leaves it, from the
  declared outputs, through inputs of operations with a reachable output and through
  captures of their nested scopes.
\<close>

theorem remaining_ops_reachable:
  assumes "ssa b" and "op \<in> set (operations (fst (snd (dce_block b))))"
  shows "\<exists>v\<in>set (outputs op). reach (fst (snd (dce_block b))) v"
  using swept_ops_reachable [of b op] assms by (simp add: swept_def)

theorem remaining_ops_reachable_witness:
  "ssa scenarioB
   \<and> Operation ''k'' ''const'' [] [1] [] \<in> set (operations (fst (snd (dce_block scenarioB))))
   \<and> reach (fst (snd (dce_block scenarioB))) 1"
proof -
  have h1: "ssa scenarioB"
    by code_simp
  have h2: "Operation ''k'' ''const'' [] [1] [] \<in> set (operations (fst (snd (dce_block scenarioB))))"
    by code_simp
  have "reach (fst (snd (dce_block scenarioB))) 1"
    using remaining_ops_reachable [OF h1 h2] by simp
  then show ?thesis
    using h1 h2 by blast
qed

section \<open>Dead operations, order, liveness set, termination\<close>

text \<open>
  Claim C4: an operation none of whose outputs is in the liveness set when it is visited
  is put on \<^verbatim>\<open>ops_to_remove\<close> and leaves the liveness set as it is; the result of the pass
  (returned set, resulting scope and log records) does not depend on its inputs or on
  its nested scopes, so it is the same as if the operation had no input and no nested
  scope at all.
\<close>

theorem dead_op_not_inspected:
  assumes "set os \<inter> fst (sweep (Suc (length pre)) post (set outs)) = {}"
  shows "dce_block (Block (pre @ Operation nm ty ins os bs # post) outs)
           = dce_block (Block (pre @ Operation nm ty ins' os bs' # post) outs)
     \<and> (length pre, Operation nm ty ins os bs)
           \<in> set (ops_to_remove (Block (pre @ Operation nm ty ins os bs # post) outs))
     \<and> fst (sweep (length pre) (Operation nm ty ins os bs # post) (set outs))
           = fst (sweep (Suc (length pre)) post (set outs))"
proof -
  have dead: "set (outputs (Operation nm ty insx os bsx)) \<inter> live_before post (set outs) = {}"
    for insx bsx
    using assms by (simp add: sweep_char)
  have msg: "removing_msg (Operation nm ty ins os bs) = removing_msg (Operation nm ty ins' os bs')"
    by (simp add: removing_msg_def)
  have "dce_block (Block (pre @ Operation nm ty ins os bs # post) outs)
          = dce_block (Block (pre @ Operation nm ty ins' os bs' # post) outs)"
    unfolding dce_block_char dead_op_result [OF dead] using msg by simp
  moreover have "(length pre, Operation nm ty ins os bs)
      \<in> set (ops_to_remove (Block (pre @ Operation nm ty ins os bs # post) outs))"
    unfolding ops_to_remove_char block.sel dead_op_result [OF dead] by simp
  moreover have "fst (sweep (length pre) (Operation nm ty ins os bs # post) (set outs))
      = fst (sweep (Suc (length pre)) post (set outs))"
    using dead [of ins bs] by (simp add: sweep_char del: sweep.simps)
  ultimately show ?thesis by blast
qed

theorem dead_op_not_inspected_witness:
  "set [1] \<inter> fst (sweep (Suc (length [])) [Operation ''r'' ''relu'' [(''x'', Single 0)] [3] []] (set [3])) = {}
   \<and> dce_block scenarioC
       = dce_block (Block [Operation ''dead_loop'' ''while_loop'' [] [1] [],
                           Operation ''r'' ''relu'' [(''x'', Single 0)] [3] []] [3])
   \<and> snd (snd (dce_block scenarioC))
       = [''Removing op '' @ [CHR 0x22] @ ''dead_loop'' @ [CHR 0x22] @ '' (type: while_loop)'']"
proof -
  have h: "set [1] \<inter> fst (sweep (Suc (length [])) [Operation ''r'' ''relu'' [(''x'', Single 0)] [3] []] (set [3])) = {}"
    by code_simp
  have lg: "snd (snd (dce_block scenarioC))
       = [''Removing op '' @ [CHR 0x22] @ ''dead_loop'' @ [CHR 0x22] @ '' (type: while_loop)'']"
    by code_simp
  have "dce_block scenarioC
       = dce_block (Block [Operation ''dead_loop'' ''while_loop'' [] [1] [],
                           Operation ''r'' ''relu'' [(''x'', Single 0)] [3] []] [3])"
    using dead_op_not_inspected [OF h, of "''dead_loop''" "''while_loop''" "[(''loop_vars'', Multi [0])]"
        "[Block [Operation ''inner'' ''add'' [(''x'', Single 0), (''y'', Single 0)] [2] []] [2]]"
        "[]" "[]"]
    unfolding scenarioC_def append_Nil by (rule conjunct1)
  then show ?thesis
    using h lg by blast
qed

text \<open>
  Claim C5: the operations of the scope after the pass are the operations at the
  positions that are not on \<^verbatim>\<open>ops_to_remove\<close>, in their order before the pass; and at
  the end of the reverse sweep, before the removal loop, the sequence still holds every
  operation.
\<close>

theorem order_preserved:
  "operations (fst (snd (dce_block b)))
     = map sweep_op (nths (operations b) {j. j \<notin> fst ` set (ops_to_remove b)})
   \<and> subseq (map op_shallow (operations (fst (snd (dce_block b))))) (map op_shallow (operations b))
   \<and> map op_shallow (fst (snd (snd (sweep 0 (operations b) (set (block_outputs b))))))
       = map op_shallow (operations b)"
proof -
  obtain ops outs where b: "b = Block ops outs"
    by (cases b)
  have "kept ops (set outs)
      = map sweep_op (nths ops {j. 0 + j \<notin> fst ` set (removed 0 ops (set outs))})"
    by (rule kept_nths)
  then show ?thesis
    using swept_Block [of ops outs] subseq_shallow_kept [of ops "set outs"]
    by (simp add: b ops_to_remove_char swept_def sweep_char map_shallow_marked)
qed

theorem order_preserved_witness:
  "map name (operations scenarioA)
     = [''const_2'', ''const_3'', ''tx_0'', ''ty_0'', ''matmul_0'', ''linear_0'']
   \<and> map name (operations (fst (snd (dce_block scenarioA)))) = [''const_2'', ''const_3'', ''linear_0'']
   \<and> subseq (map op_shallow (operations (fst (snd (dce_block scenarioA)))))
        (map op_shallow (operations scenarioA))"
proof -
  have a: "map name (operations scenarioA)
     = [''const_2'', ''const_3'', ''tx_0'', ''ty_0'', ''matmul_0'', ''linear_0'']"
    by code_simp
  have b: "map name (operations (fst (snd (dce_block scenarioA)))) = [''const_2'', ''const_3'', ''linear_0'']"
    by code_simp
  show ?thesis
    using order_preserved [of scenarioA] a b by blast
qed

text \<open>
  Claim C7: the liveness set at the start of the sweep is exactly the set of declared
  outputs. With no operation it is what the pass returns; on any scope the pass returns
  what the sweep started on the declared outputs returns; the last operation of a scope,
  the first one visited, is dead when none of its outputs is a declared output, and the
  pass then gives what it gives without that operation; otherwise the operation remains
  and the sweep goes on with the declared outputs, its inputs and what its nested scopes
  return, and nothing else. A live operation adds all its input variables, a tuple or
  list element by element, and the inputs of every remaining operation are in the
  returned set.
\<close>

theorem liveness_set_initial_and_inputs:
  "dce_block (Block [] outs) = (set outs, Block [] outs, [])
   \<and> fst (dce_block (Block ops outs)) = fst (sweep 0 ops (set outs))
   \<and> (set (outputs op) \<inter> set outs = {} \<longrightarrow>
        fst (dce_block (Block (ops @ [op]) outs)) = fst (dce_block (Block ops outs))
        \<and> fst (snd (dce_block (Block (ops @ [op]) outs))) = fst (snd (dce_block (Block ops outs))))
   \<and> (set (outputs op) \<inter> set outs \<noteq> {} \<longrightarrow>
        fst (dce_block (Block (ops @ [op]) outs))
          = fst (sweep 0 ops (set outs \<union> input_vars op \<union> (\<Union>nb\<in>set (blocks op). fst (dce_block nb))))
        \<and> (\<exists>ks. operations (fst (snd (dce_block (Block (ops @ [op]) outs)))) = ks @ [sweep_op op]))
   \<and> (set os \<inter> fst (sweep (Suc i) rest u) \<noteq> {}
        \<longrightarrow> inputs_vars ins \<subseteq> fst (sweep i (Operation nm ty ins os bs # rest) u))
   \<and> inputs_vars ins = (\<Union>(p, r)\<in>set ins. case r of Single v \<Rightarrow> {v} | Multi vs \<Rightarrow> set vs)
   \<and> (\<forall>op'\<in>set (operations (fst (snd (dce_block b)))). input_vars op' \<subseteq> fst (dce_block b))"
proof -
  have c1: "dce_block (Block [] outs) = (set outs, Block [] outs, [])"
    by simp
  have c2: "fst (dce_block (Block ops outs)) = fst (sweep 0 ops (set outs))"
    unfolding dce_block_char sweep_char by simp
  have c3: "set (outputs op) \<inter> set outs = {} \<longrightarrow>
        fst (dce_block (Block (ops @ [op]) outs)) = fst (dce_block (Block ops outs))
        \<and> fst (snd (dce_block (Block (ops @ [op]) outs))) = fst (snd (dce_block (Block ops outs)))"
    unfolding dce_block_char by (simp add: live_before_append kept_append)
  have c4: "set (outputs op) \<inter> set outs \<noteq> {} \<longrightarrow>
        fst (dce_block (Block (ops @ [op]) outs))
          = fst (sweep 0 ops (set outs \<union> input_vars op \<union> (\<Union>nb\<in>set (blocks op). fst (dce_block nb))))
        \<and> (\<exists>ks. operations (fst (snd (dce_block (Block (ops @ [op]) outs)))) = ks @ [sweep_op op])"
    unfolding dce_block_char sweep_char by (simp add: live_before_append kept_append used_of_def)
  have c5: "set os \<inter> fst (sweep (Suc i) rest u) \<noteq> {}
        \<longrightarrow> inputs_vars ins \<subseteq> fst (sweep i (Operation nm ty ins os bs # rest) u)"
    unfolding sweep_char by (auto simp: input_vars_def)
  have flat: "set (flatten_input r) = (case r of Single v \<Rightarrow> {v} | Multi vs \<Rightarrow> set vs)" for r
    by (cases r) simp_all
  have c6: "inputs_vars ins = (\<Union>(p, r)\<in>set ins. case r of Single v \<Rightarrow> {v} | Multi vs \<Rightarrow> set vs)"
    by (auto simp: inputs_vars_def flat)
  have "\<forall>op'\<in>set xs. input_vars op' \<subseteq> uses_ops xs" for xs
    by (induction xs) (auto simp: uses_ops_Cons)
  then have c7: "\<forall>op'\<in>set (operations (fst (snd (dce_block b)))). input_vars op' \<subseteq> fst (dce_block b)"
    using used_of_uses [of b] by (cases "swept b") (auto simp: used_of_def swept_def)
  show ?thesis
    using c1 c2 c3 c4 c5 c6 c7 by blast
qed

theorem liveness_set_initial_and_inputs_witness:
  "set (outputs (Operation ''d'' ''relu'' [(''x'', Single 1)] [9] [])) \<inter> set [1] = {}
   \<and> fst (dce_block (Block ([Operation ''k'' ''const'' [] [1] []]
                             @ [Operation ''d'' ''relu'' [(''x'', Single 1)] [9] []]) [1])) = {1}
   \<and> fst (snd (dce_block (Block ([Operation ''k'' ''const'' [] [1] []]
                             @ [Operation ''d'' ''relu'' [(''x'', Single 1)] [9] []]) [1])))
       = Block [Operation ''k'' ''const'' [] [1] []] [1]
   \<and> set (outputs (Operation ''loop'' ''while_loop'' [(''loop_vars'', Multi [0, 4])] [2] [])) \<inter> set [2] \<noteq> {}
   \<and> fst (dce_block (Block ([Operation ''k'' ''const'' [] [1] []]
                             @ [Operation ''loop'' ''while_loop'' [(''loop_vars'', Multi [0, 4])] [2] []]) [2]))
       = {0, 2, 4}
   \<and> inputs_vars [(''loop_vars'', Multi [0, 4])] = {0, 4}"
proof -
  let ?k = "Operation ''k'' ''const'' [] [1] []"
  let ?d = "Operation ''d'' ''relu'' [(''x'', Single 1)] [9] []"
  let ?l = "Operation ''loop'' ''while_loop'' [(''loop_vars'', Multi [0, 4])] [2] []"
  have dead: "set (outputs ?d) \<inter> set [1] = {}"
    by simp
  have live: "set (outputs ?l) \<inter> set [2] \<noteq> {}"
    by simp
  have base: "fst (dce_block (Block [?k] [1])) = {1}"
      "fst (snd (dce_block (Block [?k] [1]))) = Block [?k] [1]"
    by code_simp+
  have cont: "fst (sweep 0 [?k] (set [2] \<union> input_vars ?l \<union> (\<Union>nb\<in>set (blocks ?l). fst (dce_block nb))))
      = {0, 2, 4}"
    by code_simp
  have f: "inputs_vars [(''loop_vars'', Multi [0, 4])] = {0, 4}"
    by code_simp
  note t1 = liveness_set_initial_and_inputs [where ops = "[?k]" and op = ?d and outs = "[1]"]
  note t2 = liveness_set_initial_and_inputs [where ops = "[?k]" and op = ?l and outs = "[2]"]
  note e1 = t1 [THEN conjunct2, THEN conjunct2, THEN conjunct1, THEN mp, OF dead]
  note e2 = t2 [THEN conjunct2, THEN conjunct2, THEN conjunct2, THEN conjunct1, THEN mp, OF live,
      THEN conjunct1]
  have r1: "fst (dce_block (Block ([?k] @ [?d]) [1])) = {1}"
    using e1 [THEN conjunct1] base(1) by (rule trans)
  have r2: "fst (snd (dce_block (Block ([?k] @ [?d]) [1]))) = Block [?k] [1]"
    using e1 [THEN conjunct2] base(2) by (rule trans)
  have r3: "fst (dce_block (Block ([?k] @ [?l]) [2])) = {0, 2, 4}"
    using e2 cont by (rule trans)
  show ?thesis
    using dead live f r1 r2 r3 by blast
qed



end
